theory Spec2Isabelle
  imports Main "HOL-Library.Word" "HOL-Library.Sublist"
begin

section \<open>The RFID + PIN access controller (RFID_Authentication_System.ino)\<close>

text \<open>
  The sketch is one function, \<open>loop()\<close>, that the Arduino runtime calls again and
  again. One call is one authentication attempt. Its inputs come from three peripherals
  (card reader, millisecond clock, keypad); its outputs go to a display, a buzzer, two LEDs
  and the serial log. The model makes the inputs of one call a record, and the outputs a
  list of actions in program order, so that every intermediate state of the outputs can be
  recovered from a prefix of that list.
\<close>

subsection \<open>Machine types and constants\<close>

type_synonym byte = "8 word"

text \<open>\<open>unsigned long\<close> on the ATmega2560 is 32 bits wide; subtraction wraps.\<close>
type_synonym ulong = "32 word"

definition BUZZER_PIN :: nat where "BUZZER_PIN = 47"
definition RED_LED :: nat where "RED_LED = 45"
definition GREEN_LED :: nat where "GREEN_LED = 43"

definition PIN_TIMEOUT :: ulong where "PIN_TIMEOUT = 7500"
definition ROWS :: nat where "ROWS = 4"
definition COLS :: nat where "COLS = 4"
definition pinAmount :: nat where "pinAmount = 4"

definition keys :: "char list list" where
  "keys = [''123A'', ''456B'', ''789C'', ''*0#D'']"

text \<open>The string terminator, and the value the Keypad library's \<open>getKey()\<close> returns when
  no key is pressed (\<open>NO_KEY\<close> is \<open>'\0'\<close> in Keypad.h).\<close>

definition NUL :: char where "NUL = CHR 0x00"
definition NO_KEY :: char where "NO_KEY = NUL"

subsection \<open>The user database\<close>

text \<open>\<open>pins\<close> is the five-character buffer of the struct: four characters and the
  terminator that the string literal adds.\<close>

record User =
  cardIDS :: "byte list"
  pins :: "char list"
  name :: string

definition users :: "User list" where
  "users =
    [\<lparr>cardIDS = [0xB3, 0x29, 0xD7, 0x5], pins = ''1234'' @ [NUL], name = ''Alice''\<rparr>,
     \<lparr>cardIDS = [0x5E, 0xEE, 0x9C, 0x4], pins = ''ABCD'' @ [NUL], name = ''Bob''\<rparr>]"

subsection \<open>The C library functions the sketch calls\<close>

text \<open>Both return \<open>None\<close> when the comparison would read past the end of a buffer,
  which is undefined behaviour in C.\<close>

fun memcmp :: "byte list \<Rightarrow> byte list \<Rightarrow> nat \<Rightarrow> int option" where
  "memcmp a b 0 = Some 0"
| "memcmp (x # a) (y # b) (Suc n) =
     (if x \<noteq> y then Some (int (unat x) - int (unat y)) else memcmp a b n)"
| "memcmp a b (Suc n) = None"

fun strcmp :: "char list \<Rightarrow> char list \<Rightarrow> int option" where
  "strcmp (x # a) (y # b) =
     (if x \<noteq> y then Some (int (of_char x :: nat) - int (of_char y :: nat))
      else if x = NUL then Some 0
      else strcmp a b)"
| "strcmp a b = None"

subsection \<open>Inputs and outputs of one call of \<open>loop()\<close>\<close>

text \<open>The reader's \<open>uid\<close> member: the UID length the card reported and the byte buffer
  (ten bytes in the MFRC522 library).\<close>

record Uid =
  size :: nat
  uidByte :: "byte list"

text \<open>
  \<open>polls\<close> has one entry for each iteration of the \<open>while (key == NO_KEY)\<close> loop: the
  value \<open>millis()\<close> returns in the timeout test, and the value \<open>KEYPAD.getKey()\<close>
  returns after it (not consulted when the timeout fires). A list that ends leaves the
  call inside the PIN loop.
\<close>

record env =
  card_present :: bool
  read_ok :: bool
  uid :: Uid
  start_millis :: ulong
  polls :: "(ulong \<times> char) list"

datatype action =
    SerialPrint string
  | SerialPrintln string
  | SerialPrintHex byte
  | Tone nat nat
  | NoTone nat
  | Delay nat
  | DigitalWrite nat bool
  | LcdClear
  | LcdPrint string
  | LcdSetCursor nat nat
  | Millis ulong
  | GetKey char

datatype outcome =
    NoCard
  | ReadFailed
  | RejectedCard
  | TimedOut
  | RejectedPin
  | Accepted
  | StillPolling
  | Fault

text \<open>The automatic variables of \<open>loop()\<close> that make up a session. They exist only
  between the lookup and the \<open>return\<close>.\<close>

record session =
  rowStorer :: int
  keypadEnters :: "char list"
  startTime :: ulong

subsection \<open>Card scan and lookup\<close>

text \<open>The copy loop reads \<open>uidByte[0..3]\<close>, whatever \<open>size\<close> says.\<close>

definition copy_uid :: "Uid \<Rightarrow> byte list option" where
  "copy_uid u = (if length (uidByte u) < 4 then None else Some (take 4 (uidByte u)))"

definition print_uid :: "byte list \<Rightarrow> action list" where
  "print_uid scannedArray =
     concat (map (\<lambda>b. [SerialPrintHex b, SerialPrint '' '']) scannedArray) @ [SerialPrintln '''']"

text \<open>The search loop: the index of the first record whose card id matches, or \<open>-1\<close>.\<close>

primrec search :: "byte list \<Rightarrow> User list \<Rightarrow> int \<Rightarrow> int option" where
  "search scannedArray [] i = Some (- 1)"
| "search scannedArray (u # us) i =
     (case memcmp scannedArray (cardIDS u) 4 of
        None \<Rightarrow> None
      | Some r \<Rightarrow> if r = 0 then Some i else search scannedArray us (i + 1))"

definition lookup :: "byte list \<Rightarrow> int option" where
  "lookup scannedArray = search scannedArray (take 2 users) 0"

subsection \<open>Feedback sequences\<close>

definition card_beep :: "action list" where
  "card_beep =
     [SerialPrintln ''Card read successfully!'',
      Tone BUZZER_PIN 1800, Delay 100, NoTone BUZZER_PIN]"

definition unauthorized_feedback :: "action list" where
  "unauthorized_feedback =
     [SerialPrintln ''Unauthorized card'',
      LcdClear, LcdPrint ''UNAUTHORIZED'',
      Tone BUZZER_PIN 200, DigitalWrite RED_LED True, Delay 800, NoTone BUZZER_PIN,
      Delay 2500, DigitalWrite RED_LED False, LcdClear]"

definition greeting :: "User \<Rightarrow> action list" where
  "greeting u =
     [SerialPrint ''User '', SerialPrint (name u), SerialPrintln '' prompted for PIN'',
      LcdClear, LcdPrint ''Hello '', LcdPrint (name u),
      LcdSetCursor 0 1, LcdPrint ''Enter Pin: '']"

definition timeout_feedback :: "action list" where
  "timeout_feedback =
     [SerialPrintln ''Session timeout'',
      LcdClear, LcdPrint ''SESSION EXPIRED'',
      Tone BUZZER_PIN 200, DigitalWrite RED_LED True, Delay 800, NoTone BUZZER_PIN,
      Delay 1000, DigitalWrite RED_LED False, LcdClear]"

definition key_feedback :: "action list" where
  "key_feedback = [LcdPrint ''*'', Tone BUZZER_PIN 1500, Delay 50, NoTone BUZZER_PIN]"

definition print_pin :: "char list \<Rightarrow> action list" where
  "print_pin ks =
     SerialPrint ''PIN entered: '' #
     concat (map (\<lambda>c. [SerialPrint [c], SerialPrint '' '']) ks) @ [SerialPrintln '''']"

definition denied_feedback :: "action list" where
  "denied_feedback =
     [SerialPrintln ''Incorrect PIN - Access denied'',
      LcdClear, LcdPrint ''ACCESS DENIED'',
      Tone BUZZER_PIN 200, DigitalWrite RED_LED True, Delay 800, NoTone BUZZER_PIN,
      Delay 700, DigitalWrite RED_LED False, Delay 1000, LcdClear]"

definition granted_feedback :: "action list" where
  "granted_feedback =
     [SerialPrintln ''Access granted'',
      LcdClear, LcdPrint ''ACCESS GRANTED'',
      Tone BUZZER_PIN 1500, DigitalWrite GREEN_LED True, Delay 150,
      Tone BUZZER_PIN 2000, Delay 150, NoTone BUZZER_PIN,
      Delay 1000, DigitalWrite GREEN_LED False, LcdClear]"

subsection \<open>PIN entry\<close>

datatype wait_result = Key char | Expired | Starved

text \<open>The inner \<open>while (key == NO_KEY)\<close> loop. It is entered with \<open>key == NO_KEY\<close>, so
  the timeout test runs before the first \<open>getKey()\<close>. The result carries the actions, how
  the loop ended, and the polls not yet consumed.\<close>

fun wait_key :: "ulong \<Rightarrow> (ulong \<times> char) list
    \<Rightarrow> action list \<times> wait_result \<times> (ulong \<times> char) list" where
  "wait_key st [] = ([], Starved, [])"
| "wait_key st ((t, k) # ps) =
     (if t - st > PIN_TIMEOUT then (Millis t # timeout_feedback, Expired, ps)
      else if k = NO_KEY then
        (case wait_key st ps of (tr, r, rest) \<Rightarrow> (Millis t # GetKey k # tr, r, rest))
      else ([Millis t, GetKey k], Key k, ps))"

datatype pin_result = Entered "char list" | Timeout | Pending "char list"

text \<open>The outer \<open>for\<close> loop, with \<open>n\<close> the number of keys still to read
  (\<open>pinAmount - i\<close>) and \<open>buf\<close> the keys stored so far.\<close>

fun read_pin :: "nat \<Rightarrow> ulong \<Rightarrow> char list \<Rightarrow> (ulong \<times> char) list
    \<Rightarrow> action list \<times> pin_result" where
  "read_pin 0 st buf ps = ([], Entered buf)"
| "read_pin (Suc n) st buf ps =
     (case wait_key st ps of
        (tr, Key k, rest) \<Rightarrow>
          (case read_pin n st (buf @ [k]) rest of
             (tr', r) \<Rightarrow> (tr @ key_feedback @ tr', r))
      | (tr, Expired, rest) \<Rightarrow> (tr, Timeout)
      | (tr, Starved, rest) \<Rightarrow> (tr, Pending buf))"

subsection \<open>The main function\<close>

definition verify :: "User \<Rightarrow> char list \<Rightarrow> action list \<times> outcome \<times> session option" where
  "verify u ks =
     (case strcmp (pins u) (ks @ [NUL]) of
        None \<Rightarrow> ([], Fault, None)
      | Some r \<Rightarrow>
          if r \<noteq> 0 then (denied_feedback, RejectedPin, None)
          else (granted_feedback, Accepted, None))"

definition pin_phase :: "int \<Rightarrow> env \<Rightarrow> action list \<times> outcome \<times> session option" where
  "pin_phase row e =
     (let u = users ! nat row; st = start_millis e in
      case read_pin pinAmount st [] (polls e) of
        (tr, Timeout) \<Rightarrow> (greeting u @ Millis st # tr, TimedOut, None)
      | (tr, Pending buf) \<Rightarrow>
          (greeting u @ Millis st # tr, StillPolling,
           Some \<lparr>rowStorer = row, keypadEnters = buf, startTime = st\<rparr>)
      | (tr, Entered ks) \<Rightarrow>
          (case verify u ks of
             (tr', r, s) \<Rightarrow> (greeting u @ Millis st # tr @ print_pin ks @ tr', r, s)))"

definition loop :: "env \<Rightarrow> action list \<times> outcome \<times> session option" where
  "loop e =
     (if \<not> card_present e then ([], NoCard, None)
      else if \<not> read_ok e then ([SerialPrintln ''Card detected''], ReadFailed, None)
      else
        (case copy_uid (uid e) of
           None \<Rightarrow> (SerialPrintln ''Card detected'' # card_beep, Fault, None)
         | Some scannedArray \<Rightarrow>
             (case lookup scannedArray of
                None \<Rightarrow>
                  (SerialPrintln ''Card detected'' # card_beep @ print_uid scannedArray,
                   Fault, None)
              | Some row \<Rightarrow>
                  if row = - 1 then
                    (SerialPrintln ''Card detected'' # card_beep @ print_uid scannedArray
                       @ unauthorized_feedback,
                     RejectedCard, None)
                  else
                    (case pin_phase row e of
                       (tr, r, s) \<Rightarrow>
                         (SerialPrintln ''Card detected'' # card_beep
                            @ print_uid scannedArray @ tr, r, s)))))"

definition trace :: "env \<Rightarrow> action list" where
  "trace e = fst (loop e)"

definition result :: "env \<Rightarrow> outcome" where
  "result e = fst (snd (loop e))"

definition live_session :: "env \<Rightarrow> session option" where
  "live_session e = snd (snd (loop e))"

subsection \<open>What the outputs show\<close>

text \<open>The state of the output devices: the two LEDs, the frequency the buzzer is sounding
  (if any), and the texts written to the display since it was last cleared.\<close>

record hw =
  red :: bool
  green :: bool
  buzzer :: "nat option"
  display :: "string list"

text \<open>After reset the port registers are zero and \<open>setup()\<close> only sets pin directions
  and clears the display.\<close>

definition power_on :: hw where
  "power_on = \<lparr>red = False, green = False, buzzer = None, display = []\<rparr>"

fun exec :: "hw \<Rightarrow> action \<Rightarrow> hw" where
  "exec s (Tone p f) = (if p = BUZZER_PIN then s\<lparr>buzzer := Some f\<rparr> else s)"
| "exec s (NoTone p) = (if p = BUZZER_PIN then s\<lparr>buzzer := None\<rparr> else s)"
| "exec s (DigitalWrite p v) =
     (if p = RED_LED then s\<lparr>red := v\<rparr>
      else if p = GREEN_LED then s\<lparr>green := v\<rparr>
      else s)"
| "exec s LcdClear = s\<lparr>display := []\<rparr>"
| "exec s (LcdPrint txt) = s\<lparr>display := display s @ [txt]\<rparr>"
| "exec s a = s"

definition run :: "hw \<Rightarrow> action list \<Rightarrow> hw" where
  "run s tr = foldl exec s tr"

subsection \<open>Reading the data and the traces\<close>

text \<open>The C string held in the \<open>pins\<close> buffer: the characters before the terminator.\<close>

definition stored_pin :: "User \<Rightarrow> char list" where
  "stored_pin u = takeWhile (\<lambda>c. c \<noteq> NUL) (pins u)"

definition digit :: "char \<Rightarrow> bool" where
  "digit c = (c \<in> set ''0123456789'')"

text \<open>The milliseconds of \<open>delay()\<close> in a trace, and those between the first occurrence
  of an action \<open>a\<close> and the next occurrence of an action \<open>b\<close>.\<close>

fun delay_total :: "action list \<Rightarrow> nat" where
  "delay_total [] = 0"
| "delay_total (Delay ms # tr) = ms + delay_total tr"
| "delay_total (a # tr) = delay_total tr"

definition span_ms :: "action \<Rightarrow> action \<Rightarrow> action list \<Rightarrow> nat" where
  "span_ms a b tr =
     delay_total (takeWhile (\<lambda>x. x \<noteq> b) (tl (dropWhile (\<lambda>x. x \<noteq> a) tr)))"

subsection \<open>Reading the PIN phase\<close>

text \<open>The milliseconds from \<open>st\<close> to \<open>t\<close> as the sketch measures them: the unsigned
  32-bit difference of two \<open>millis()\<close> readings.\<close>

definition elapsed :: "ulong \<Rightarrow> ulong \<Rightarrow> nat" where
  "elapsed st t = unat (t - st)"

text \<open>The keys that a list of polls returns, in order.\<close>

definition pressed :: "(ulong \<times> char) list \<Rightarrow> char list" where
  "pressed ps = filter (\<lambda>k. k \<noteq> NO_KEY) (map snd ps)"

text \<open>What the PIN loop does on polls that pass the timeout test: read the clock,
  read the keypad, and acknowledge a key when there is one.\<close>

fun poll_steps :: "(ulong \<times> char) list \<Rightarrow> action list" where
  "poll_steps [] = []"
| "poll_steps ((t, k) # ps) =
     Millis t # GetKey k # (if k = NO_KEY then [] else key_feedback) @ poll_steps ps"

text \<open>The call resolves the record at index \<open>row\<close>: a card is present, its serial
  is read, and the search loop ends with \<open>row\<close>, which is not \<open>-1\<close>.\<close>

definition resolved :: "env \<Rightarrow> int \<Rightarrow> bool" where
  "resolved e row =
     (card_present e \<and> read_ok e \<and> row \<noteq> - 1 \<and>
      (case copy_uid (uid e) of None \<Rightarrow> False | Some scannedArray \<Rightarrow> lookup scannedArray = Some row))"

text \<open>The feedback sequence that ends a call with the given outcome.\<close>

fun feedback_of :: "outcome \<Rightarrow> action list" where
  "feedback_of RejectedCard = unauthorized_feedback"
| "feedback_of TimedOut = timeout_feedback"
| "feedback_of RejectedPin = denied_feedback"
| "feedback_of Accepted = granted_feedback"
| "feedback_of r = []"

subsection \<open>Sample calls\<close>

text \<open>An unprovisioned four-byte card, and Bob's card followed by the keys A, B, C, D.\<close>

definition unknown_card :: env where
  "unknown_card =
     \<lparr>card_present = True, read_ok = True,
      uid = \<lparr>size = 4, uidByte = [0x01, 0x02, 0x03, 0x04, 0, 0, 0, 0, 0, 0]\<rparr>,
      start_millis = 0, polls = []\<rparr>"

definition bob_abcd :: env where
  "bob_abcd =
     \<lparr>card_present = True, read_ok = True,
      uid = \<lparr>size = 4, uidByte = [0x5E, 0xEE, 0x9C, 0x04, 0, 0, 0, 0, 0, 0]\<rparr>,
      start_millis = 1000,
      polls = [(1200, NO_KEY), (2000, CHR ''A''), (2900, CHR ''B''), (3000, NO_KEY),
               (4100, CHR ''C''), (5000, CHR ''D'')]\<rparr>"

text \<open>The first record's card, with the fourth key returned by a poll at exactly
  7500 ms after the start of the PIN phase.\<close>

definition alice_boundary :: env where
  "alice_boundary =
     \<lparr>card_present = True, read_ok = True,
      uid = \<lparr>size = 4, uidByte = [0xB3, 0x29, 0xD7, 0x05, 0, 0, 0, 0, 0, 0]\<rparr>,
      start_millis = 100,
      polls = [(101, NO_KEY), (200, CHR ''1''), (300, CHR ''2''), (400, NO_KEY),
               (500, CHR ''3''), (7600, CHR ''4'')]\<rparr>"

text \<open>The first record's card with the keys 1, 2, 3, 5, the clock wrapping around during
  the PIN phase; and the second record's card with two keys and then silence.\<close>

definition alice_1235 :: env where
  "alice_1235 =
     \<lparr>card_present = True, read_ok = True,
      uid = \<lparr>size = 4, uidByte = [0xB3, 0x29, 0xD7, 0x05, 0, 0, 0, 0, 0, 0]\<rparr>,
      start_millis = 4294967000,
      polls = [(4294967200, CHR ''1''), (300, CHR ''2''), (1300, NO_KEY),
               (2300, CHR ''3''), (3300, CHR ''5'')]\<rparr>"

definition bob_two_keys :: env where
  "bob_two_keys =
     \<lparr>card_present = True, read_ok = True,
      uid = \<lparr>size = 4, uidByte = [0x5E, 0xEE, 0x9C, 0x04, 0, 0, 0, 0, 0, 0]\<rparr>,
      start_millis = 0,
      polls = [(1000, CHR ''A''), (2000, CHR ''B''), (7500, NO_KEY), (7600, CHR ''C'')]\<rparr>"

text \<open>A card with a seven-byte UID whose first four bytes are those of the first record.\<close>

definition alice_long_uid :: env where
  "alice_long_uid =
     \<lparr>card_present = True, read_ok = True,
      uid = \<lparr>size = 7, uidByte = [0xB3, 0x29, 0xD7, 0x05, 0xAA, 0xBB, 0xCC, 0, 0, 0]\<rparr>,
      start_millis = 0, polls = []\<rparr>"

section \<open>Properties\<close>

subsection \<open>The library functions\<close>

lemma memcmp_defined:
  "n \<le> length a \<Longrightarrow> n \<le> length b \<Longrightarrow>
   \<exists>r. memcmp a b n = Some r \<and> (r = 0) = (take n a = take n b)"
proof (induction n arbitrary: a b)
  case 0
  then show ?case by simp
next
  case (Suc n)
  from Suc.prems obtain x a' y b' where ab: "a = x # a'" "b = y # b'"
    by (cases a; cases b) auto
  show ?case
  proof (cases "x = y")
    case True
    with Suc ab show ?thesis by simp
  next
    case False
    then have "uint x \<noteq> uint y" by (simp add: word_uint_eq_iff)
    with False ab show ?thesis by simp
  qed
qed

lemma strcmp_terminated:
  "NUL \<notin> set a \<Longrightarrow> NUL \<notin> set b \<Longrightarrow>
   \<exists>r. strcmp (a @ [NUL]) (b @ [NUL]) = Some r \<and> (r = 0) = (a = b)"
proof (induction a arbitrary: b)
  case Nil
  then show ?case by (cases b) auto
next
  case (Cons x a)
  then show ?case by (cases b) auto
qed

subsection \<open>Lookup\<close>

lemma lookup_take:
  assumes len: "4 \<le> length F"
  shows "lookup F =
     Some (if take 4 F = [0xB3, 0x29, 0xD7, 0x5] then 0
           else if take 4 F = [0x5E, 0xEE, 0x9C, 0x4] then 1 else - 1)"
proof -
  obtain r0 where r0: "memcmp F [0xB3, 0x29, 0xD7, 0x5] 4 = Some r0"
      "(r0 = 0) = (take 4 F = take 4 [0xB3, 0x29, 0xD7, 0x5])"
    using memcmp_defined [of 4 F "[0xB3, 0x29, 0xD7, 0x5]"] len by auto
  obtain r1 where r1: "memcmp F [0x5E, 0xEE, 0x9C, 0x4] 4 = Some r1"
      "(r1 = 0) = (take 4 F = take 4 [0x5E, 0xEE, 0x9C, 0x4])"
    using memcmp_defined [of 4 F "[0x5E, 0xEE, 0x9C, 0x4]"] len by auto
  show ?thesis
    using r0 r1 by (simp add: lookup_def users_def)
qed

lemma lookup_range: "lookup F = Some r \<Longrightarrow> r = - 1 \<or> r = 0 \<or> r = 1"
  by (auto simp: lookup_def users_def split: option.splits if_splits)

text \<open>
  Claim C2. For every four-byte fingerprint \<open>F\<close> the search loop ends with a row index:
  it is the index \<open>i\<close> of a record exactly when that record's card id is \<open>F\<close>, byte for
  byte and in order, and it is \<open>-1\<close> (no record) exactly when no record of the table has
  the card id \<open>F\<close>.
\<close>

theorem lookup_exact:
  assumes "length F = 4"
  shows "(\<exists>r. lookup F = Some r) \<and>
         (\<forall>i < length users. (lookup F = Some (int i)) = (cardIDS (users ! i) = F)) \<and>
         ((lookup F = Some (- 1)) = (\<forall>u \<in> set users. cardIDS u \<noteq> F))"
  using assms lookup_take [of F] by (auto simp: users_def nth_Cons')

theorem lookup_exact_witness:
  "length [0xB3, 0x29, 0xD7, 0x5 :: byte] = 4 \<and>
   lookup [0xB3, 0x29, 0xD7, 0x5] = Some 0 \<and>
   lookup [0xB3, 0x29, 0xD7, 0x5] \<noteq> Some 1 \<and>
   lookup [0xB3, 0x29, 0xD7, 0x5] \<noteq> Some (- 1)"
  using lookup_exact [of "[0xB3, 0x29, 0xD7, 0x5]"] by (auto simp: users_def)

subsection \<open>A failed card read\<close>

text \<open>
  Claim C6. When a card is reported present and reading its serial fails, \<open>loop()\<close>
  returns at once: no session exists, the only output is the line "Card detected" on the
  serial log, and the buzzer, the display and both LEDs are left exactly as they were.
\<close>

theorem read_failure_silent:
  assumes "card_present e" and "\<not> read_ok e"
  shows "result e = ReadFailed \<and> live_session e = None \<and>
         trace e = [SerialPrintln ''Card detected''] \<and> run s (trace e) = s"
  using assms by (simp add: result_def live_session_def trace_def loop_def run_def)

theorem read_failure_silent_witness:
  "card_present (unknown_card\<lparr>read_ok := False\<rparr>) \<and>
   \<not> read_ok (unknown_card\<lparr>read_ok := False\<rparr>) \<and>
   result (unknown_card\<lparr>read_ok := False\<rparr>) = ReadFailed \<and>
   run power_on (trace (unknown_card\<lparr>read_ok := False\<rparr>)) = power_on"
  using read_failure_silent [of "unknown_card\<lparr>read_ok := False\<rparr>" power_on]
  by (simp add: unknown_card_def run_def)

subsection \<open>An unknown card\<close>

lemma span_ms_skip: "a \<notin> set pre \<Longrightarrow> span_ms a b (pre @ tr) = span_ms a b tr"
proof -
  assume "a \<notin> set pre"
  then have "dropWhile (\<lambda>x. x \<noteq> a) (pre @ tr) = dropWhile (\<lambda>x. x \<noteq> a) tr"
    by (intro dropWhile_append2) auto
  then show ?thesis by (simp add: span_ms_def)
qed

text \<open>
  Claim C7. Whenever the lookup finds no record for the scanned card, the outcome is
  RejectedCard and the call ends with the rejection sequence: the display is cleared and
  shows "UNAUTHORIZED", a 200 Hz tone starts and the red LED is switched on, the tone stops
  after 800 ms, the display and the red LED are then held for 2500 ms, and after that the
  red LED is switched off and the display is cleared. Nothing of the sequence occurs
  earlier in the call.
\<close>

theorem unauthorized_sequence:
  assumes "card_present e" and "read_ok e"
    and "copy_uid (uid e) = Some scannedArray" and "lookup scannedArray = Some (- 1)"
  shows "result e = RejectedCard \<and>
         (\<exists>before. trace e = before @
            [LcdClear, LcdPrint ''UNAUTHORIZED'',
             Tone BUZZER_PIN 200, DigitalWrite RED_LED True, Delay 800, NoTone BUZZER_PIN,
             Delay 2500, DigitalWrite RED_LED False, LcdClear] \<and>
            LcdPrint ''UNAUTHORIZED'' \<notin> set before \<and> Tone BUZZER_PIN 200 \<notin> set before \<and>
            DigitalWrite RED_LED True \<notin> set before) \<and>
         span_ms (Tone BUZZER_PIN 200) (NoTone BUZZER_PIN) (trace e) = 800 \<and>
         span_ms (NoTone BUZZER_PIN) LcdClear
           (dropWhile (\<lambda>x. x \<noteq> Tone BUZZER_PIN 200) (trace e)) = 2500 \<and>
         span_ms (NoTone BUZZER_PIN) (DigitalWrite RED_LED False)
           (dropWhile (\<lambda>x. x \<noteq> Tone BUZZER_PIN 200) (trace e)) = 2500"
proof -
  let ?before = "SerialPrintln ''Card detected'' # card_beep @ print_uid scannedArray
                   @ [SerialPrintln ''Unauthorized card'']"
  let ?fb = "[LcdClear, LcdPrint ''UNAUTHORIZED'',
             Tone BUZZER_PIN 200, DigitalWrite RED_LED True, Delay 800, NoTone BUZZER_PIN,
             Delay 2500, DigitalWrite RED_LED False, LcdClear]"
  have tr: "trace e = ?before @ ?fb"
    using assms by (simp add: trace_def loop_def unauthorized_feedback_def)
  have res: "result e = RejectedCard"
    using assms by (simp add: result_def loop_def)
  have q1: "LcdPrint ''UNAUTHORIZED'' \<notin> set ?before"
    by (auto simp: card_beep_def print_uid_def)
  have q2: "Tone BUZZER_PIN 200 \<notin> set ?before"
    by (auto simp: card_beep_def print_uid_def)
  have q3: "DigitalWrite RED_LED True \<notin> set ?before"
    by (auto simp: card_beep_def print_uid_def)
  have s1: "span_ms (Tone BUZZER_PIN 200) (NoTone BUZZER_PIN) (trace e) = 800"
    unfolding tr using q2 by (subst span_ms_skip) (simp_all add: span_ms_def)
  have "dropWhile (\<lambda>x. x \<noteq> Tone BUZZER_PIN 200) (?before @ ?fb) =
          dropWhile (\<lambda>x. x \<noteq> Tone BUZZER_PIN 200) ?fb"
    using q2 by (intro dropWhile_append2) auto
  then have from_tone: "dropWhile (\<lambda>x. x \<noteq> Tone BUZZER_PIN 200) (trace e) =
      [Tone BUZZER_PIN 200, DigitalWrite RED_LED True, Delay 800, NoTone BUZZER_PIN,
       Delay 2500, DigitalWrite RED_LED False, LcdClear]"
    unfolding tr by simp
  have s2: "span_ms (NoTone BUZZER_PIN) LcdClear
           (dropWhile (\<lambda>x. x \<noteq> Tone BUZZER_PIN 200) (trace e)) = 2500"
    unfolding from_tone by (simp add: span_ms_def)
  have s3: "span_ms (NoTone BUZZER_PIN) (DigitalWrite RED_LED False)
           (dropWhile (\<lambda>x. x \<noteq> Tone BUZZER_PIN 200) (trace e)) = 2500"
    unfolding from_tone by (simp add: span_ms_def)
  show ?thesis
    using tr res q1 q2 q3 s1 s2 s3 by blast
qed

theorem unauthorized_sequence_witness:
  "card_present unknown_card \<and> read_ok unknown_card \<and>
   copy_uid (uid unknown_card) = Some [0x01, 0x02, 0x03, 0x04] \<and>
   lookup [0x01, 0x02, 0x03, 0x04] = Some (- 1) \<and>
   result unknown_card = RejectedCard \<and>
   span_ms (Tone BUZZER_PIN 200) (NoTone BUZZER_PIN) (trace unknown_card) = 800 \<and>
   span_ms (NoTone BUZZER_PIN) LcdClear
     (dropWhile (\<lambda>x. x \<noteq> Tone BUZZER_PIN 200) (trace unknown_card)) = 2500"
proof -
  have h: "card_present unknown_card" "read_ok unknown_card"
      "copy_uid (uid unknown_card) = Some [0x01, 0x02, 0x03, 0x04]"
    by (simp_all add: unknown_card_def copy_uid_def)
  have l: "lookup [0x01, 0x02, 0x03, 0x04] = Some (- 1)"
    by (simp add: lookup_take)
  show ?thesis
    using unauthorized_sequence [OF h l] h l by simp
qed

subsection \<open>PIN entry\<close>

lemma timeout_test: "(PIN_TIMEOUT < t - st) = (7500 < elapsed st t)"
  by (simp add: PIN_TIMEOUT_def elapsed_def word_less_nat_alt)

text \<open>The 32-bit difference is the true elapsed time, also across a wrap of the counter,
  as long as less than \<open>2 ^ 32\<close> ms have passed.\<close>

lemma elapsed_true_time:
  assumes "s \<le> t" and "t - s < 2 ^ 32"
  shows "elapsed (of_nat s) (of_nat t) = t - s"
proof -
  have "(of_nat t :: ulong) - of_nat s = of_nat (t - s)"
    using assms(1) by (simp add: of_nat_diff)
  then show ?thesis
    using assms(2) by (simp add: elapsed_def unat_of_nat)
qed

lemma read_pin_Nil: "read_pin (Suc n) st buf [] = ([], Pending buf)"
  by simp

lemma read_pin_late:
  "7500 < elapsed st t \<Longrightarrow>
   read_pin (Suc n) st buf ((t, k) # ps) = (Millis t # timeout_feedback, Timeout)"
  by (simp add: timeout_test)

lemma read_pin_idle:
  "elapsed st t \<le> 7500 \<Longrightarrow>
   read_pin (Suc n) st buf ((t, NO_KEY) # ps) =
     (case read_pin (Suc n) st buf ps of (tr, r) \<Rightarrow> (Millis t # GetKey NO_KEY # tr, r))"
  by (simp add: timeout_test split: prod.splits wait_result.splits)

lemma read_pin_key:
  "elapsed st t \<le> 7500 \<Longrightarrow> k \<noteq> NO_KEY \<Longrightarrow>
   read_pin (Suc n) st buf ((t, k) # ps) =
     (case read_pin n st (buf @ [k]) ps of
        (tr, r) \<Rightarrow> (Millis t # GetKey k # key_feedback @ tr, r))"
  by (simp add: timeout_test split: prod.splits)

lemma pressed_Nil: "pressed [] = []"
  by (simp add: pressed_def)

lemma pressed_Cons:
  "pressed ((t, k) # ps) = (if k = NO_KEY then pressed ps else k # pressed ps)"
  by (simp add: pressed_def)

lemma read_pin_result:
  "snd (read_pin n st buf ps) =
     (let w = takeWhile (\<lambda>p. elapsed st (fst p) \<le> 7500) ps in
      if n \<le> length (pressed w) then Entered (buf @ take n (pressed w))
      else if w = ps then Pending (buf @ pressed w)
      else Timeout)"
proof (induction ps arbitrary: n buf)
  case Nil
  then show ?case by (cases n) (simp_all add: pressed_Nil)
next
  case (Cons p ps)
  obtain t k where p: "p = (t, k)" by (cases p)
  show ?case
  proof (cases n)
    case 0
    then show ?thesis by simp
  next
    case (Suc m)
    show ?thesis
    proof (cases "7500 < elapsed st t")
      case True
      then show ?thesis
        unfolding Suc p by (simp add: read_pin_late pressed_Nil del: read_pin.simps)
    next
      case False
      then have le: "elapsed st t \<le> 7500" by simp
      show ?thesis
      proof (cases "k = NO_KEY")
        case True
        have eq: "snd (read_pin (Suc m) st buf ((t, NO_KEY) # ps)) = snd (read_pin (Suc m) st buf ps)"
          using le by (simp add: read_pin_idle split: prod.splits del: read_pin.simps)
        show ?thesis
          unfolding Suc p True eq Cons.IH using le
          by (simp add: pressed_Cons Let_def)
      next
        case False
        have eq: "snd (read_pin (Suc m) st buf ((t, k) # ps)) = snd (read_pin m st (buf @ [k]) ps)"
          using le False by (simp add: read_pin_key split: prod.splits del: read_pin.simps)
        show ?thesis
          unfolding Suc p eq Cons.IH using le False
          by (simp add: pressed_Cons Let_def)
      qed
    qed
  qed
qed

lemma loop_resolved:
  "resolved e row \<Longrightarrow>
   loop e =
     (case pin_phase row e of
        (tr, r, s) \<Rightarrow>
          (SerialPrintln ''Card detected'' # card_beep
             @ print_uid (take 4 (uidByte (uid e))) @ tr, r, s))"
  by (auto simp: resolved_def loop_def copy_uid_def split: option.splits if_splits)

lemma resolved_row: "resolved e row \<Longrightarrow> row = 0 \<or> row = 1"
  using lookup_range [of _ row] by (auto simp: resolved_def split: option.splits)

lemma result_resolved:
  "resolved e row \<Longrightarrow>
   result e =
     (case snd (read_pin pinAmount (start_millis e) [] (polls e)) of
        Entered ks \<Rightarrow> fst (snd (verify (users ! nat row) ks))
      | Timeout \<Rightarrow> TimedOut
      | Pending b \<Rightarrow> StillPolling)"
  by (simp add: result_def loop_resolved pin_phase_def Let_def
      split: prod.splits pin_result.splits)

lemma pins_terminated:
  "row = 0 \<or> row = 1 \<Longrightarrow>
   pins (users ! nat row) = stored_pin (users ! nat row) @ [NUL] \<and>
   NUL \<notin> set (stored_pin (users ! nat row)) \<and>
   length (stored_pin (users ! nat row)) = 4"
  by (auto simp: users_def stored_pin_def NUL_def)

lemma verify_decides:
  assumes "row = 0 \<or> row = 1" and "NUL \<notin> set ks"
  shows "verify (users ! nat row) ks =
     (if ks = stored_pin (users ! nat row) then (granted_feedback, Accepted, None)
      else (denied_feedback, RejectedPin, None))"
proof -
  let ?u = "users ! nat row"
  from pins_terminated [OF assms(1)]
  have p: "pins ?u = stored_pin ?u @ [NUL]" and n: "NUL \<notin> set (stored_pin ?u)"
    by simp_all
  from strcmp_terminated [OF n assms(2)]
  obtain r where "strcmp (stored_pin ?u @ [NUL]) (ks @ [NUL]) = Some r"
    and "(r = 0) = (stored_pin ?u = ks)"
    by blast
  then show ?thesis
    by (auto simp: verify_def p)
qed

lemma pressed_no_NUL: "NUL \<notin> set (pressed ps)"
  by (simp add: pressed_def NO_KEY_def)

lemma take_pressed_no_NUL: "NUL \<notin> set (take n (pressed ps))"
  using pressed_no_NUL [of ps] by (auto dest: in_set_takeD)

text \<open>
  Claim C3. In a call that has resolved a record, let \<open>w\<close> be the polls up to the first
  one whose clock reading is more than 7500 ms after the start of the PIN phase. The
  outcome is TimedOut exactly when \<open>w\<close> returns fewer than four keys and such a later
  reading exists; the PIN comparison is reached (outcome Accepted or RejectedPin, decided
  on the first four keys) exactly when \<open>w\<close> returns at least four keys, a reading of
  exactly 7500 ms included; and TimedOut only occurs with a reading strictly above 7500 ms.
\<close>

theorem pin_deadline:
  assumes "resolved e row"
  shows "let st = start_millis e;
             w = takeWhile (\<lambda>p. elapsed st (fst p) \<le> 7500) (polls e) in
         ((result e = TimedOut) = (length (pressed w) < 4 \<and> w \<noteq> polls e)) \<and>
         ((result e = StillPolling) = (length (pressed w) < 4 \<and> w = polls e)) \<and>
         ((result e = Accepted \<or> result e = RejectedPin) = (4 \<le> length (pressed w))) \<and>
         (4 \<le> length (pressed w) \<longrightarrow>
            result e = (if take 4 (pressed w) = stored_pin (users ! nat row)
                        then Accepted else RejectedPin)) \<and>
         (result e = TimedOut \<longrightarrow> (\<exists>p \<in> set (polls e). 7500 < elapsed st (fst p)))"
proof -
  let ?st = "start_millis e"
  let ?w = "takeWhile (\<lambda>p. elapsed ?st (fst p) \<le> 7500) (polls e)"
  have row: "row = 0 \<or> row = 1"
    using assms by (rule resolved_row)
  have v: "fst (snd (verify (users ! nat row) (take 4 (pressed ?w)))) =
      (if take 4 (pressed ?w) = stored_pin (users ! nat row) then Accepted else RejectedPin)"
    using verify_decides [OF row take_pressed_no_NUL, of 4 ?w] by simp
  have r: "result e =
      (if 4 \<le> length (pressed ?w) then
         (if take 4 (pressed ?w) = stored_pin (users ! nat row) then Accepted else RejectedPin)
       else if ?w = polls e then StillPolling else TimedOut)"
    using v by (simp add: result_resolved [OF assms] read_pin_result pinAmount_def Let_def)
  have late: "?w \<noteq> polls e \<Longrightarrow> \<exists>p \<in> set (polls e). 7500 < elapsed ?st (fst p)"
    by (force simp: takeWhile_eq_all_conv not_le)
  show ?thesis
    unfolding Let_def using r late by auto
qed

theorem pin_deadline_witness:
  "resolved alice_boundary 0 \<and> elapsed 100 7600 = 7500 \<and> result alice_boundary = Accepted \<and>
   resolved bob_two_keys 1 \<and> elapsed 0 7600 = 7600 \<and> result bob_two_keys = TimedOut"
proof -
  have h: "resolved alice_boundary 0"
    by (simp add: resolved_def alice_boundary_def copy_uid_def lookup_take)
  have w: "takeWhile (\<lambda>p. elapsed 100 (fst p) \<le> 7500) (polls alice_boundary) = polls alice_boundary"
    by (simp add: alice_boundary_def elapsed_def)
  have p: "pressed (polls alice_boundary) = ''1234''"
    by (simp add: alice_boundary_def pressed_def NO_KEY_def NUL_def)
  have s: "start_millis alice_boundary = 100"
    by (simp add: alice_boundary_def)
  have u: "stored_pin (users ! 0) = ''1234''"
    by (simp add: users_def stored_pin_def NUL_def)
  have b: "elapsed 100 7600 = 7500"
    by (simp add: elapsed_def)
  have first: "result alice_boundary = Accepted"
    using pin_deadline [OF h] by (simp add: Let_def s w p u)
  have h': "resolved bob_two_keys 1"
    by (simp add: resolved_def bob_two_keys_def copy_uid_def lookup_take)
  have w': "takeWhile (\<lambda>p. elapsed 0 (fst p) \<le> 7500) (polls bob_two_keys) =
             [(1000, CHR ''A''), (2000, CHR ''B''), (7500, NO_KEY)]"
    by (simp add: bob_two_keys_def elapsed_def)
  have p': "pressed [(1000, CHR ''A''), (2000, CHR ''B''), (7500, NO_KEY)] = ''AB''"
    by (simp add: pressed_def NO_KEY_def NUL_def)
  have s': "start_millis bob_two_keys = 0"
    by (simp add: bob_two_keys_def)
  have n': "\<exists>x \<in> set (polls bob_two_keys). \<not> elapsed 0 (fst x) \<le> 7500"
    by (simp add: bob_two_keys_def elapsed_def)
  have b': "elapsed 0 7600 = 7600"
    by (simp add: elapsed_def)
  have second: "result bob_two_keys = TimedOut"
    using pin_deadline [OF h'] n' by (simp add: Let_def s' w' p')
  show ?thesis
    using h b first h' b' second by simp
qed

text \<open>
  Claim C1. In a call that has resolved a record and whose PIN loop has stored four keys
  in the buffer, both the buffer and the stored PIN are four characters long; if they are
  equal, character for character, the outcome is Accepted, and if they differ at some
  position the outcome is RejectedPin.
\<close>

theorem pin_comparison:
  assumes "resolved e row"
    and "snd (read_pin pinAmount (start_millis e) [] (polls e)) = Entered buf"
  shows "length buf = 4 \<and> length (stored_pin (users ! nat row)) = 4 \<and>
         (buf = stored_pin (users ! nat row) \<longrightarrow> result e = Accepted) \<and>
         ((\<exists>i<4. buf ! i \<noteq> stored_pin (users ! nat row) ! i) \<longrightarrow> result e = RejectedPin)"
proof -
  let ?w = "takeWhile (\<lambda>p. elapsed (start_millis e) (fst p) \<le> 7500) (polls e)"
  have row: "row = 0 \<or> row = 1"
    using assms(1) by (rule resolved_row)
  from assms(2) have buf: "buf = take 4 (pressed ?w)" and len: "4 \<le> length (pressed ?w)"
    by (auto simp: read_pin_result pinAmount_def Let_def split: if_splits)
  have nul: "NUL \<notin> set buf"
    unfolding buf by (rule take_pressed_no_NUL)
  have r: "result e = (if buf = stored_pin (users ! nat row) then Accepted else RejectedPin)"
    using verify_decides [OF row nul] assms(2) by (simp add: result_resolved [OF assms(1)])
  have l: "length buf = 4"
    using len by (simp add: buf)
  show ?thesis
    using r l pins_terminated [OF row] by auto
qed

theorem pin_comparison_witness:
  "resolved alice_boundary 0 \<and>
   snd (read_pin pinAmount (start_millis alice_boundary) [] (polls alice_boundary)) = Entered ''1234'' \<and>
   result alice_boundary = Accepted \<and>
   resolved alice_1235 0 \<and>
   snd (read_pin pinAmount (start_millis alice_1235) [] (polls alice_1235)) = Entered ''1235'' \<and>
   result alice_1235 = RejectedPin"
proof -
  have h: "resolved alice_boundary 0"
    by (simp add: resolved_def alice_boundary_def copy_uid_def lookup_take)
  have e: "snd (read_pin pinAmount (start_millis alice_boundary) [] (polls alice_boundary)) = Entered ''1234''"
    by code_simp
  have h': "resolved alice_1235 0"
    by (simp add: resolved_def alice_1235_def copy_uid_def lookup_take)
  have e': "snd (read_pin pinAmount (start_millis alice_1235) [] (polls alice_1235)) = Entered ''1235''"
    by code_simp
  have u: "stored_pin (users ! 0) = ''1234''"
    by (simp add: users_def stored_pin_def NUL_def)
  have d: "\<exists>i<4. ''1235'' ! i \<noteq> ''1234'' ! i"
    by (rule exI [of _ 3]) simp
  show ?thesis
    using pin_comparison [OF h e] pin_comparison [OF h' e'] h e h' e' d by (simp add: u)
qed

subsection \<open>The stored PINs\<close>

lemma result_entered:
  assumes "resolved e row"
    and "snd (read_pin pinAmount (start_millis e) [] (polls e)) = Entered buf"
  shows "result e = (if buf = stored_pin (users ! nat row) then Accepted else RejectedPin)"
proof -
  let ?w = "takeWhile (\<lambda>p. elapsed (start_millis e) (fst p) \<le> 7500) (polls e)"
  have row: "row = 0 \<or> row = 1"
    using assms(1) by (rule resolved_row)
  from assms(2) have buf: "buf = take 4 (pressed ?w)"
    by (auto simp: read_pin_result pinAmount_def Let_def split: if_splits)
  have nul: "NUL \<notin> set buf"
    unfolding buf by (rule take_pressed_no_NUL)
  show ?thesis
    using verify_decides [OF row nul] assms(2) by (simp add: result_resolved [OF assms(1)])
qed

text \<open>
  Claim C5, as stated, fails: the PIN stored for the second record is not made of digits.
\<close>

theorem stored_pin_not_digits: "\<not> list_all digit (stored_pin (users ! 1))"
  by (simp add: stored_pin_def users_def NUL_def digit_def)

text \<open>
  Claim C5, amended. Every stored PIN is four characters long and each character is one of
  the sixteen keys of the keypad matrix. The first record's PIN is the digits 1234; the
  second record's PIN is ABCD, four non-digit keys, and every call that resolves the
  second record and stores the keys A, B, C, D in the buffer ends Accepted.
\<close>

theorem stored_pins_are_keys:
  "list_all (\<lambda>u. length (stored_pin u) = 4 \<and> set (stored_pin u) \<subseteq> set (concat keys)) users \<and>
   stored_pin (users ! 0) = ''1234'' \<and>
   stored_pin (users ! 1) = ''ABCD'' \<and>
   (\<forall>e. resolved e 1 \<and>
        snd (read_pin pinAmount (start_millis e) [] (polls e)) = Entered ''ABCD'' \<longrightarrow>
        result e = Accepted)"
proof -
  have pin: "stored_pin (users ! 1) = ''ABCD''"
    by (simp add: stored_pin_def users_def NUL_def)
  have acc: "result e = Accepted"
    if "resolved e 1" and "snd (read_pin pinAmount (start_millis e) [] (polls e)) = Entered ''ABCD''"
    for e
    using result_entered [OF that] pin by simp
  have tab: "list_all (\<lambda>u. length (stored_pin u) = 4 \<and> set (stored_pin u) \<subseteq> set (concat keys)) users"
    by (simp add: stored_pin_def users_def NUL_def keys_def)
  have first: "stored_pin (users ! 0) = ''1234''"
    by (simp add: stored_pin_def users_def NUL_def)
  show ?thesis
    using tab first pin acc by blast
qed

theorem stored_pins_are_keys_witness:
  "resolved bob_abcd 1 \<and>
   snd (read_pin pinAmount (start_millis bob_abcd) [] (polls bob_abcd)) = Entered ''ABCD'' \<and>
   result bob_abcd = Accepted"
proof -
  have h: "resolved bob_abcd 1"
    by (simp add: resolved_def bob_abcd_def copy_uid_def lookup_take)
  have e: "snd (read_pin pinAmount (start_millis bob_abcd) [] (polls bob_abcd)) = Entered ''ABCD''"
    by code_simp
  show ?thesis
    using stored_pins_are_keys h e by blast
qed

subsection \<open>Traces of the PIN loop\<close>

lemma poll_steps_append: "poll_steps (xs @ ys) = poll_steps xs @ poll_steps ys"
  by (induction xs rule: poll_steps.induct) simp_all

lemma read_pin_shape:
  "\<exists>used rest. ps = used @ rest \<and> (\<forall>p \<in> set used. elapsed st (fst p) \<le> 7500) \<and>
     (case snd (read_pin n st buf ps) of
        Entered ks \<Rightarrow>
          ks = buf @ pressed used \<and>
          fst (read_pin n st buf ps) = poll_steps used \<and> length (pressed used) = n \<and>
          (used = [] \<or> snd (last used) \<noteq> NO_KEY)
      | Timeout \<Rightarrow>
          length (pressed used) < n \<and>
          (\<exists>t k rest'. rest = (t, k) # rest' \<and> 7500 < elapsed st t \<and>
             fst (read_pin n st buf ps) = poll_steps used @ Millis t # timeout_feedback)
      | Pending b \<Rightarrow>
          b = buf @ pressed used \<and> length (pressed used) < n \<and> rest = [] \<and>
          fst (read_pin n st buf ps) = poll_steps used)"
proof (induction ps arbitrary: n buf)
  case Nil
  then show ?case by (cases n) (simp_all add: pressed_Nil)
next
  case (Cons p ps)
  obtain t k where p: "p = (t, k)" by (cases p)
  show ?case
  proof (cases n)
    case 0
    show ?thesis
      unfolding 0
      apply (rule exI [of _ "[]"])
      apply (rule exI [of _ "p # ps"])
      by (simp add: pressed_Nil)
  next
    case (Suc m)
    show ?thesis
    proof (cases "7500 < elapsed st t")
      case True
      show ?thesis
        unfolding Suc p using True
        apply -
        apply (rule exI [of _ "[]"])
        apply (rule exI [of _ "(t, k) # ps"])
        by (simp add: read_pin_late pressed_Nil del: read_pin.simps)
    next
      case False
      then have le: "elapsed st t \<le> 7500" by simp
      show ?thesis
      proof (cases "k = NO_KEY")
        case True
        have s: "snd (read_pin (Suc m) st buf ((t, NO_KEY) # ps)) = snd (read_pin (Suc m) st buf ps)"
          and f: "fst (read_pin (Suc m) st buf ((t, NO_KEY) # ps)) =
                    Millis t # GetKey NO_KEY # fst (read_pin (Suc m) st buf ps)"
          using le by (simp_all add: read_pin_idle split: prod.splits del: read_pin.simps)
        from Cons.IH [where n = "Suc m" and buf = buf] obtain used rest where
          u: "ps = used @ rest" "\<forall>p \<in> set used. elapsed st (fst p) \<le> 7500"
          and c: "case snd (read_pin (Suc m) st buf ps) of
        Entered ks \<Rightarrow>
          ks = buf @ pressed used \<and>
          fst (read_pin (Suc m) st buf ps) = poll_steps used \<and> length (pressed used) = Suc m \<and>
          (used = [] \<or> snd (last used) \<noteq> NO_KEY)
      | Timeout \<Rightarrow>
          length (pressed used) < Suc m \<and>
          (\<exists>t k rest'. rest = (t, k) # rest' \<and> 7500 < elapsed st t \<and>
             fst (read_pin (Suc m) st buf ps) = poll_steps used @ Millis t # timeout_feedback)
      | Pending b \<Rightarrow>
          b = buf @ pressed used \<and> length (pressed used) < Suc m \<and> rest = [] \<and>
          fst (read_pin (Suc m) st buf ps) = poll_steps used"
          by blast
        show ?thesis
          unfolding Suc p True s f
          apply (rule exI [of _ "(t, NO_KEY) # used"])
          apply (rule exI [of _ rest])
          using u c le
          by (auto simp: pressed_Cons pressed_Nil simp del: read_pin.simps split: pin_result.splits)
      next
        case False
        have s: "snd (read_pin (Suc m) st buf ((t, k) # ps)) = snd (read_pin m st (buf @ [k]) ps)"
          and f: "fst (read_pin (Suc m) st buf ((t, k) # ps)) =
                    Millis t # GetKey k # key_feedback @ fst (read_pin m st (buf @ [k]) ps)"
          using le False by (simp_all add: read_pin_key split: prod.splits del: read_pin.simps)
        from Cons.IH [where n = m and buf = "buf @ [k]"] obtain used rest where
          u: "ps = used @ rest" "\<forall>p \<in> set used. elapsed st (fst p) \<le> 7500"
          and c: "case snd (read_pin m st (buf @ [k]) ps) of
        Entered ks \<Rightarrow>
          ks = (buf @ [k]) @ pressed used \<and>
          fst (read_pin m st (buf @ [k]) ps) = poll_steps used \<and> length (pressed used) = m \<and>
          (used = [] \<or> snd (last used) \<noteq> NO_KEY)
      | Timeout \<Rightarrow>
          length (pressed used) < m \<and>
          (\<exists>t k' rest'. rest = (t, k') # rest' \<and> 7500 < elapsed st t \<and>
             fst (read_pin m st (buf @ [k]) ps) = poll_steps used @ Millis t # timeout_feedback)
      | Pending b \<Rightarrow>
          b = (buf @ [k]) @ pressed used \<and> length (pressed used) < m \<and> rest = [] \<and>
          fst (read_pin m st (buf @ [k]) ps) = poll_steps used"
          by blast
        show ?thesis
          unfolding Suc p s f
          apply (rule exI [of _ "(t, k) # used"])
          apply (rule exI [of _ rest])
          using u c le False
          by (auto simp: pressed_Cons pressed_Nil simp del: read_pin.simps split: pin_result.splits)
      qed
    qed
  qed
qed

subsection \<open>The shape of the PIN phase\<close>


lemma trace_resolved:
  "resolved e row \<Longrightarrow>
   trace e =
     SerialPrintln ''Card detected'' # card_beep @ print_uid (take 4 (uidByte (uid e)))
       @ greeting (users ! nat row) @ Millis (start_millis e)
       # fst (read_pin pinAmount (start_millis e) [] (polls e))
       @ (case snd (read_pin pinAmount (start_millis e) [] (polls e)) of
            Entered ks \<Rightarrow> print_pin ks @ fst (verify (users ! nat row) ks)
          | Timeout \<Rightarrow> []
          | Pending b \<Rightarrow> [])"
  by (simp add: trace_def loop_resolved pin_phase_def Let_def
      split: prod.splits pin_result.splits)

lemma pin_phase_shape:
  assumes "resolved e row"
  shows "\<exists>used rest ending.
      polls e = used @ rest \<and>
      (\<forall>p \<in> set used. elapsed (start_millis e) (fst p) \<le> 7500) \<and>
      trace e =
        SerialPrintln ''Card detected'' # card_beep @ print_uid (take 4 (uidByte (uid e)))
          @ greeting (users ! nat row) @ Millis (start_millis e) # poll_steps used @ ending \<and>
      (result e = TimedOut \<or> result e = StillPolling \<or> result e = Accepted \<or> result e = RejectedPin) \<and>
      (result e = TimedOut \<longrightarrow>
         length (pressed used) < 4 \<and>
         (\<exists>t k rest'. rest = (t, k) # rest' \<and> 7500 < elapsed (start_millis e) t \<and>
            ending = Millis t # timeout_feedback)) \<and>
      (result e = StillPolling \<longrightarrow> length (pressed used) < 4 \<and> rest = [] \<and> ending = []) \<and>
      (result e = Accepted \<or> result e = RejectedPin \<longrightarrow>
         length (pressed used) = 4 \<and> used \<noteq> [] \<and> snd (last used) \<noteq> NO_KEY \<and>
         ending = print_pin (pressed used)
                    @ (if result e = Accepted then granted_feedback else denied_feedback) \<and>
         (\<forall>t. Millis t \<notin> set ending) \<and> (\<forall>k. GetKey k \<notin> set ending))"
proof -
  let ?st = "start_millis e"
  let ?rp = "read_pin pinAmount ?st [] (polls e)"
  have row: "row = 0 \<or> row = 1"
    using assms by (rule resolved_row)
  from read_pin_shape [where ps = "polls e" and st = ?st and n = pinAmount and buf = "[]"]
  obtain used rest where split: "polls e = used @ rest"
    and intime: "\<forall>p \<in> set used. elapsed ?st (fst p) \<le> 7500"
    and shape: "case snd ?rp of
        Entered ks \<Rightarrow>
          ks = [] @ pressed used \<and>
          fst ?rp = poll_steps used \<and> length (pressed used) = pinAmount \<and>
          (used = [] \<or> snd (last used) \<noteq> NO_KEY)
      | Timeout \<Rightarrow>
          length (pressed used) < pinAmount \<and>
          (\<exists>t k rest'. rest = (t, k) # rest' \<and> 7500 < elapsed ?st t \<and>
             fst ?rp = poll_steps used @ Millis t # timeout_feedback)
      | Pending b \<Rightarrow>
          b = [] @ pressed used \<and> length (pressed used) < pinAmount \<and> rest = [] \<and>
          fst ?rp = poll_steps used"
    by blast
  show ?thesis
  proof (cases "snd ?rp")
    case (Entered ks)
    with shape have f: "fst ?rp = poll_steps used" and l: "length (pressed used) = 4"
      and last: "used = [] \<or> snd (last used) \<noteq> NO_KEY" and ks: "ks = pressed used"
      by (simp_all add: pinAmount_def)
    from l have ne: "used \<noteq> []"
      by (auto simp: pressed_Nil)
    have nul: "NUL \<notin> set ks"
      unfolding ks by (rule pressed_no_NUL)
    note v = verify_decides [OF row nul]
    have res: "result e = (if ks = stored_pin (users ! nat row) then Accepted else RejectedPin)"
      using v Entered by (simp add: result_resolved [OF assms])
    have tr: "trace e =
        SerialPrintln ''Card detected'' # card_beep @ print_uid (take 4 (uidByte (uid e)))
          @ greeting (users ! nat row) @ Millis ?st # poll_steps used
          @ (print_pin ks @ (if result e = Accepted then granted_feedback else denied_feedback))"
      using v Entered f res by (simp add: trace_resolved [OF assms])
    have quiet: "(\<forall>t. Millis t \<notin> set (print_pin ks @ (if result e = Accepted then granted_feedback else denied_feedback)))
        \<and> (\<forall>k. GetKey k \<notin> set (print_pin ks @ (if result e = Accepted then granted_feedback else denied_feedback)))"
      by (auto simp: print_pin_def granted_feedback_def denied_feedback_def)
    show ?thesis
      apply (rule exI [of _ used])
      apply (rule exI [of _ rest])
      apply (rule exI [of _ "print_pin ks @ (if result e = Accepted then granted_feedback else denied_feedback)"])
      using split intime tr res l ne last quiet ks
      by auto
  next
    case Timeout
    with shape obtain t k rest' where l: "length (pressed used) < 4"
      and rest: "rest = (t, k) # rest'" and late: "7500 < elapsed ?st t"
      and f: "fst ?rp = poll_steps used @ Millis t # timeout_feedback"
      by (auto simp: pinAmount_def)
    have res: "result e = TimedOut"
      using Timeout by (simp add: result_resolved [OF assms])
    have tr: "trace e =
        SerialPrintln ''Card detected'' # card_beep @ print_uid (take 4 (uidByte (uid e)))
          @ greeting (users ! nat row) @ Millis ?st # poll_steps used
          @ (Millis t # timeout_feedback)"
      using Timeout f by (simp add: trace_resolved [OF assms])
    show ?thesis
      apply (rule exI [of _ used])
      apply (rule exI [of _ rest])
      apply (rule exI [of _ "Millis t # timeout_feedback"])
      using split intime tr res l rest late
      by auto
  next
    case (Pending b)
    with shape have l: "length (pressed used) < 4"
      and rest: "rest = []"
      and f: "fst ?rp = poll_steps used"
      by (auto simp: pinAmount_def)
    have res: "result e = StillPolling"
      using Pending by (simp add: result_resolved [OF assms])
    have tr: "trace e =
        SerialPrintln ''Card detected'' # card_beep @ print_uid (take 4 (uidByte (uid e)))
          @ greeting (users ! nat row) @ Millis ?st # poll_steps used @ []"
      using Pending f by (simp add: trace_resolved [OF assms])
    show ?thesis
      apply (rule exI [of _ used])
      apply (rule exI [of _ rest])
      apply (rule exI [of _ "[]"])
      using split intime tr res l rest
      by auto
  qed
qed

text \<open>
  Claim C8. In a call that has resolved a record, the PIN phase is a run of polling steps
  over a prefix \<open>used\<close> of the polls: each step reads the clock first, finds the elapsed
  time at most 7500 ms, and only then reads the keypad (and acknowledges a key). A TimedOut
  outcome has fewer than four keys read and its timeout sequence comes directly after a
  clock reading above 7500 ms, taken at the start of a step, with no keypad read after it.
  When four keys have been read, the last step is the one that returned the fourth key and
  nothing after it reads the clock or the keypad.
\<close>

theorem deadline_between_polls:
  assumes "resolved e row"
  shows "\<exists>used rest ending.
      polls e = used @ rest \<and>
      (\<forall>p \<in> set used. elapsed (start_millis e) (fst p) \<le> 7500) \<and>
      trace e =
        SerialPrintln ''Card detected'' # card_beep @ print_uid (take 4 (uidByte (uid e)))
          @ greeting (users ! nat row) @ Millis (start_millis e) # poll_steps used @ ending \<and>
      (result e = TimedOut \<or> result e = StillPolling \<or> result e = Accepted \<or> result e = RejectedPin) \<and>
      (result e = TimedOut \<longrightarrow>
         length (pressed used) < 4 \<and>
         (\<exists>t k rest'. rest = (t, k) # rest' \<and> 7500 < elapsed (start_millis e) t \<and>
            ending = Millis t # timeout_feedback)) \<and>
      (result e = StillPolling \<longrightarrow> length (pressed used) < 4 \<and> rest = [] \<and> ending = []) \<and>
      (result e = Accepted \<or> result e = RejectedPin \<longrightarrow>
         length (pressed used) = 4 \<and> used \<noteq> [] \<and> snd (last used) \<noteq> NO_KEY \<and>
         ending = print_pin (pressed used)
                    @ (if result e = Accepted then granted_feedback else denied_feedback) \<and>
         (\<forall>t. Millis t \<notin> set ending) \<and> (\<forall>k. GetKey k \<notin> set ending))"
  using assms by (rule pin_phase_shape)

theorem deadline_between_polls_witness:
  "resolved bob_two_keys 1 \<and> result bob_two_keys = TimedOut \<and>
   (\<exists>used t k rest'.
      polls bob_two_keys = used @ (t, k) # rest' \<and>
      7500 < elapsed (start_millis bob_two_keys) t \<and>
      length (pressed used) < 4 \<and>
      trace bob_two_keys =
        SerialPrintln ''Card detected'' # card_beep
          @ print_uid (take 4 (uidByte (uid bob_two_keys)))
          @ greeting (users ! nat 1) @ Millis (start_millis bob_two_keys) # poll_steps used
          @ Millis t # timeout_feedback)"
proof -
  have h: "resolved bob_two_keys 1"
    by (simp add: resolved_def bob_two_keys_def copy_uid_def lookup_take)
  have r: "result bob_two_keys = TimedOut"
    by code_simp
  show ?thesis
    using deadline_between_polls [OF h] h r by fastforce
qed

subsection \<open>Which bytes of the UID count\<close>

lemma cardIDS_length: "i < length users \<Longrightarrow> length (cardIDS (users ! i)) = 4"
  by (auto simp: users_def nth_Cons')

lemma lookup_own: "i < length users \<Longrightarrow> lookup (cardIDS (users ! i)) = Some (int i)"
  using lookup_take [of "cardIDS (users ! i)"] by (auto simp: users_def nth_Cons')

lemma pin_phase_uid: "pin_phase row (e\<lparr>uid := u\<rparr>) = pin_phase row e"
  by (simp add: pin_phase_def)

text \<open>
  Claim C9. When a card is present and read, and the first four bytes of the reader's UID
  buffer equal the card id of record \<open>i\<close>, the call resolves record \<open>i\<close>, greets that
  user and starts the PIN phase; and the whole call is the same for any UID length the
  reader reports and any bytes that follow the first four.
\<close>

theorem first_four_uid_bytes:
  assumes "card_present e" and "read_ok e" and "i < length users"
    and "take 4 (uidByte (uid e)) = cardIDS (users ! i)"
  shows "resolved e (int i) \<and>
         (\<exists>post. trace e =
            SerialPrintln ''Card detected'' # card_beep @ print_uid (cardIDS (users ! i))
              @ greeting (users ! i) @ Millis (start_millis e) # post) \<and>
         (result e = TimedOut \<or> result e = StillPolling \<or>
          result e = Accepted \<or> result e = RejectedPin) \<and>
         loop (e\<lparr>uid := \<lparr>size = n, uidByte = cardIDS (users ! i) @ extra\<rparr>\<rparr>) = loop e"
proof -
  have len: "length (cardIDS (users ! i)) = 4"
    using assms(3) by (rule cardIDS_length)
  with assms(4) have "4 \<le> length (uidByte (uid e))"
    by (metis length_take min.cobounded1)
  then have copy: "copy_uid (uid e) = Some (cardIDS (users ! i))"
    using assms(4) by (simp add: copy_uid_def)
  have copy': "copy_uid \<lparr>size = n, uidByte = cardIDS (users ! i) @ extra\<rparr> = Some (cardIDS (users ! i))"
    using len by (simp add: copy_uid_def)
  have res: "resolved e (int i)"
    using assms(1,2) copy lookup_own [OF assms(3)] by (simp add: resolved_def)
  from pin_phase_shape [OF res] assms(4)
  have tr: "\<exists>post. trace e =
            SerialPrintln ''Card detected'' # card_beep @ print_uid (cardIDS (users ! i))
              @ greeting (users ! i) @ Millis (start_millis e) # post"
    and out: "result e = TimedOut \<or> result e = StillPolling \<or>
          result e = Accepted \<or> result e = RejectedPin"
    by auto
  have same: "loop (e\<lparr>uid := \<lparr>size = n, uidByte = cardIDS (users ! i) @ extra\<rparr>\<rparr>) = loop e"
    using copy copy' by (simp add: loop_def pin_phase_uid lookup_own [OF assms(3)])
  show ?thesis
    using res tr out same by blast
qed

theorem first_four_uid_bytes_witness:
  "card_present alice_long_uid \<and> read_ok alice_long_uid \<and> (0::nat) < length users \<and>
   Uid.size (uid alice_long_uid) = 7 \<and>
   take 4 (uidByte (uid alice_long_uid)) = cardIDS (users ! 0) \<and>
   resolved alice_long_uid 0 \<and> result alice_long_uid = StillPolling"
proof -
  have a: "card_present alice_long_uid" "read_ok alice_long_uid"
    by (simp_all add: alice_long_uid_def)
  have b: "(0::nat) < length users"
    by (simp add: users_def)
  have c: "take 4 (uidByte (uid alice_long_uid)) = cardIDS (users ! 0)"
    by (simp add: alice_long_uid_def users_def)
  have d: "Uid.size (uid alice_long_uid) = 7"
    by (simp add: alice_long_uid_def)
  have r: "result alice_long_uid \<noteq> TimedOut \<and> result alice_long_uid \<noteq> Accepted \<and>
        result alice_long_uid \<noteq> RejectedPin"
    by code_simp
  show ?thesis
    using first_four_uid_bytes [OF a b c] a b c d r by auto
qed

subsection \<open>The output devices\<close>

lemma run_Nil: "run s [] = s"
  by (simp add: run_def)

lemma run_Cons: "run s (a # tr) = run (exec s a) tr"
  by (simp add: run_def)

lemma run_append: "run s (xs @ ys) = run (run s xs) ys"
  by (simp add: run_def)

lemma leds_unchanged:
  "\<forall>p v. DigitalWrite p v \<notin> set tr \<Longrightarrow> red (run s tr) = red s \<and> green (run s tr) = green s"
proof (induction tr arbitrary: s)
  case Nil
  then show ?case by (simp add: run_Nil)
next
  case (Cons a tr)
  then have "red (exec s a) = red s \<and> green (exec s a) = green s"
    by (cases a) auto
  with Cons show ?case by (simp add: run_Cons)
qed

lemma poll_steps_quiet: "DigitalWrite p v \<notin> set (poll_steps ps)"
  by (induction ps rule: poll_steps.induct) (simp_all add: key_feedback_def)

lemma print_uid_quiet: "DigitalWrite p v \<notin> set (print_uid sc)"
  by (auto simp: print_uid_def)

lemma print_pin_quiet: "DigitalWrite p v \<notin> set (print_pin ks)"
  by (auto simp: print_pin_def)

lemma loop_cases:
  "(loop e = ([], NoCard, None)) \<or>
   (loop e = ([SerialPrintln ''Card detected''], ReadFailed, None)) \<or>
   (loop e = (SerialPrintln ''Card detected'' # card_beep, Fault, None)) \<or>
   (\<exists>sc. loop e = (SerialPrintln ''Card detected'' # card_beep @ print_uid sc, Fault, None)) \<or>
   (\<exists>sc. loop e = (SerialPrintln ''Card detected'' # card_beep @ print_uid sc
                     @ unauthorized_feedback, RejectedCard, None)) \<or>
   (\<exists>row. resolved e row)"
  by (auto simp: loop_def resolved_def split: option.splits)

lemma trace_feedback:
  "\<exists>pre. trace e = pre @ feedback_of (result e) \<and> (\<forall>p v. DigitalWrite p v \<notin> set pre)"
proof -
  consider (a) "loop e = ([], NoCard, None)"
    | (b) "loop e = ([SerialPrintln ''Card detected''], ReadFailed, None)"
    | (c) "loop e = (SerialPrintln ''Card detected'' # card_beep, Fault, None)"
    | (d) sc where "loop e = (SerialPrintln ''Card detected'' # card_beep @ print_uid sc, Fault, None)"
    | (f) sc where "loop e = (SerialPrintln ''Card detected'' # card_beep @ print_uid sc
                     @ unauthorized_feedback, RejectedCard, None)"
    | (g) row where "resolved e row"
    using loop_cases [of e] by blast
  then show ?thesis
  proof cases
    case a
    then show ?thesis by (simp add: trace_def result_def)
  next
    case b
    then show ?thesis by (simp add: trace_def result_def)
  next
    case c
    then show ?thesis by (simp add: trace_def result_def card_beep_def)
  next
    case d
    then show ?thesis by (simp add: trace_def result_def card_beep_def print_uid_quiet)
  next
    case f
    show ?thesis
      apply (rule exI [of _ "SerialPrintln ''Card detected'' # card_beep @ print_uid sc"])
      using f by (simp add: trace_def result_def card_beep_def print_uid_quiet)
  next
    case g
    let ?head = "SerialPrintln ''Card detected'' # card_beep @ print_uid (take 4 (uidByte (uid e)))
          @ greeting (users ! nat row) @ [Millis (start_millis e)]"
    have hq: "\<forall>p v. DigitalWrite p v \<notin> set ?head"
      by (simp add: card_beep_def greeting_def print_uid_quiet)
    from pin_phase_shape [OF g] obtain used rest ending where
      tr: "trace e = ?head @ poll_steps used @ ending"
      and out: "result e = TimedOut \<or> result e = StillPolling \<or> result e = Accepted \<or> result e = RejectedPin"
      and t: "result e = TimedOut \<longrightarrow> (\<exists>t. ending = Millis t # timeout_feedback)"
      and s: "result e = StillPolling \<longrightarrow> ending = []"
      and v: "result e = Accepted \<or> result e = RejectedPin \<longrightarrow>
         ending = print_pin (pressed used)
                    @ (if result e = Accepted then granted_feedback else denied_feedback)"
      by auto
    from out show ?thesis
    proof (elim disjE)
      assume r: "result e = TimedOut"
      with t obtain t' where "ending = Millis t' # timeout_feedback" by blast
      then have "trace e = (?head @ poll_steps used @ [Millis t']) @ feedback_of (result e)"
        using tr r by simp
      moreover have "\<forall>p v. DigitalWrite p v \<notin> set (?head @ poll_steps used @ [Millis t'])"
        using hq by (simp add: poll_steps_quiet)
      ultimately show ?thesis by blast
    next
      assume r: "result e = StillPolling"
      with s have "trace e = (?head @ poll_steps used) @ feedback_of (result e)"
        using tr by simp
      moreover have "\<forall>p v. DigitalWrite p v \<notin> set (?head @ poll_steps used)"
        using hq by (simp add: poll_steps_quiet)
      ultimately show ?thesis by blast
    next
      assume r: "result e = Accepted"
      with v have "trace e = (?head @ poll_steps used @ print_pin (pressed used)) @ feedback_of (result e)"
        using tr by simp
      moreover have "\<forall>p v. DigitalWrite p v \<notin> set (?head @ poll_steps used @ print_pin (pressed used))"
        using hq by (simp add: poll_steps_quiet print_pin_quiet)
      ultimately show ?thesis by blast
    next
      assume r: "result e = RejectedPin"
      with v have "trace e = (?head @ poll_steps used @ print_pin (pressed used)) @ feedback_of (result e)"
        using tr by simp
      moreover have "\<forall>p v. DigitalWrite p v \<notin> set (?head @ poll_steps used @ print_pin (pressed used))"
        using hq by (simp add: poll_steps_quiet print_pin_quiet)
      ultimately show ?thesis by blast
    qed
  qed
qed

lemma feedback_leds:
  assumes "\<not> red s" and "\<not> green s" and "prefix q (feedback_of r)"
  shows "\<not> (red (run s q) \<and> green (run s q)) \<and>
         (green (run s q) \<longrightarrow> r = Accepted \<and> q \<noteq> []) \<and>
         (red (run s q) \<longrightarrow> (r = RejectedCard \<or> r = TimedOut \<or> r = RejectedPin) \<and> q \<noteq> [])"
  using assms
  by (cases r)
     (auto simp: prefix_Cons run_Nil run_Cons unauthorized_feedback_def timeout_feedback_def
        denied_feedback_def granted_feedback_def RED_LED_def GREEN_LED_def BUZZER_PIN_def)

lemma feedback_final:
  assumes "\<not> red s" and "\<not> green s"
  shows "\<not> red (run s (feedback_of r)) \<and> \<not> green (run s (feedback_of r)) \<and>
         (r = Accepted \<or> r = RejectedCard \<or> r = RejectedPin \<or> r = TimedOut \<longrightarrow>
            buzzer (run s (feedback_of r)) = None \<and> display (run s (feedback_of r)) = [])"
  using assms
  by (cases r)
     (auto simp: run_Nil run_Cons unauthorized_feedback_def timeout_feedback_def
        denied_feedback_def granted_feedback_def RED_LED_def GREEN_LED_def BUZZER_PIN_def)

lemma call_keeps_leds_low:
  assumes "\<not> red s" and "\<not> green s"
  shows "\<not> red (run s (trace e)) \<and> \<not> green (run s (trace e))"
proof -
  from trace_feedback [of e] obtain pre where
    tr: "trace e = pre @ feedback_of (result e)" and q: "\<forall>p v. DigitalWrite p v \<notin> set pre"
    by blast
  have "\<not> red (run s pre)" and "\<not> green (run s pre)"
    using leds_unchanged [OF q, of s] assms by simp_all
  then show ?thesis
    using feedback_final [of "run s pre" "result e"] by (simp add: tr run_append)
qed

lemma calls_keep_leds_low:
  "\<not> red s \<Longrightarrow> \<not> green s \<Longrightarrow>
   \<not> red (run s (concat (map trace es))) \<and> \<not> green (run s (concat (map trace es)))"
proof (induction es arbitrary: s)
  case Nil
  then show ?case by (simp add: run_Nil)
next
  case (Cons e es)
  from call_keeps_leds_low [OF Cons.prems, of e]
  have "\<not> red (run s (trace e))" and "\<not> green (run s (trace e))"
    by simp_all
  from Cons.IH [OF this] show ?case
    by (simp add: run_append)
qed

lemma session_only_while_polling: "(live_session e = None) = (result e \<noteq> StillPolling)"
proof -
  consider (a) "loop e = ([], NoCard, None)"
    | (b) "loop e = ([SerialPrintln ''Card detected''], ReadFailed, None)"
    | (c) "loop e = (SerialPrintln ''Card detected'' # card_beep, Fault, None)"
    | (d) sc where "loop e = (SerialPrintln ''Card detected'' # card_beep @ print_uid sc, Fault, None)"
    | (f) sc where "loop e = (SerialPrintln ''Card detected'' # card_beep @ print_uid sc
                     @ unauthorized_feedback, RejectedCard, None)"
    | (g) row where "resolved e row"
    using loop_cases [of e] by blast
  then show ?thesis
  proof cases
    case g
    then show ?thesis
      by (simp add: live_session_def result_def loop_resolved pin_phase_def verify_def Let_def
          split: prod.splits pin_result.splits option.splits)
  qed (simp_all add: live_session_def result_def)
qed

text \<open>
  Claim C10. Start from the state after reset, run any number of calls of \<open>loop()\<close> and
  stop at any point \<open>p\<close> of a further call. At that point the red and the green LED are
  not both on; the green LED is on only if that call ends Accepted, the red LED only if it
  ends RejectedCard, TimedOut or RejectedPin; and an LED that is on means the point lies
  inside the feedback sequence of that outcome.
\<close>

theorem indicators_exclusive:
  assumes "prefix p (trace e)"
  shows "let s = run power_on (concat (map trace es) @ p) in
           \<not> (red s \<and> green s) \<and>
           (green s \<longrightarrow> result e = Accepted) \<and>
           (red s \<longrightarrow> result e = RejectedCard \<or> result e = TimedOut \<or> result e = RejectedPin) \<and>
           (red s \<or> green s \<longrightarrow>
              (\<exists>pre q. p = pre @ q \<and> q \<noteq> [] \<and> prefix q (feedback_of (result e)) \<and>
                 trace e = pre @ feedback_of (result e)))"
proof -
  let ?s0 = "run power_on (concat (map trace es))"
  have s0: "\<not> red ?s0" "\<not> green ?s0"
    using calls_keep_leds_low [of power_on es] by (simp_all add: power_on_def)
  from trace_feedback [of e] obtain pre where
    tr: "trace e = pre @ feedback_of (result e)" and quiet: "\<forall>p v. DigitalWrite p v \<notin> set pre"
    by blast
  from assms have "prefix p pre \<or> (\<exists>q. p = pre @ q \<and> prefix q (feedback_of (result e)))"
    by (simp add: tr prefix_append)
  then show ?thesis
  proof
    assume "prefix p pre"
    then have "set p \<subseteq> set pre"
      by (rule set_mono_prefix)
    with quiet have "\<forall>a v. DigitalWrite a v \<notin> set p"
      by blast
    from leds_unchanged [OF this, of ?s0] s0 show ?thesis
      by (simp add: run_append Let_def)
  next
    assume "\<exists>q. p = pre @ q \<and> prefix q (feedback_of (result e))"
    then obtain q where p: "p = pre @ q" and q: "prefix q (feedback_of (result e))"
      by blast
    let ?s1 = "run ?s0 pre"
    have s1: "\<not> red ?s1" "\<not> green ?s1"
      using leds_unchanged [OF quiet, of ?s0] s0 by simp_all
    have run: "run power_on (concat (map trace es) @ p) = run ?s1 q"
      by (simp add: p run_append)
    from feedback_leds [OF s1 q] show ?thesis
      unfolding Let_def run using p q tr by blast
  qed
qed

text \<open>
  Claim C4. Start from the state after reset and run any number of calls of \<open>loop()\<close>.
  When a further call ends with a terminal outcome (Accepted, RejectedCard, RejectedPin or
  TimedOut) it has returned, so that none of its session variables is live (the digit
  buffer included), and at its end both LEDs are off, the buzzer is silent and the display
  is cleared.
\<close>

theorem terminal_outcome_returns_to_idle:
  assumes "result e = Accepted \<or> result e = RejectedCard \<or>
           result e = RejectedPin \<or> result e = TimedOut"
  shows "live_session e = None \<and>
         (let s = run power_on (concat (map trace es) @ trace e) in
            \<not> red s \<and> \<not> green s \<and> buzzer s = None \<and> display s = [])"
proof -
  let ?s0 = "run power_on (concat (map trace es))"
  have s0: "\<not> red ?s0" "\<not> green ?s0"
    using calls_keep_leds_low [of power_on es] by (simp_all add: power_on_def)
  from trace_feedback [of e] obtain pre where
    tr: "trace e = pre @ feedback_of (result e)" and quiet: "\<forall>p v. DigitalWrite p v \<notin> set pre"
    by blast
  let ?s1 = "run ?s0 pre"
  have s1: "\<not> red ?s1" "\<not> green ?s1"
    using leds_unchanged [OF quiet, of ?s0] s0 by simp_all
  have run: "run power_on (concat (map trace es) @ trace e) = run ?s1 (feedback_of (result e))"
    by (simp add: tr run_append)
  have sess: "live_session e = None"
    using assms by (auto simp: session_only_while_polling)
  from feedback_final [OF s1, of "result e"] assms sess show ?thesis
    unfolding Let_def run by blast
qed

theorem indicators_exclusive_witness:
  "prefix (take (length (trace alice_boundary) - 7) (trace alice_boundary)) (trace alice_boundary) \<and>
   green (run power_on (concat (map trace [unknown_card, bob_two_keys])
            @ take (length (trace alice_boundary) - 7) (trace alice_boundary))) \<and>
   \<not> red (run power_on (concat (map trace [unknown_card, bob_two_keys])
            @ take (length (trace alice_boundary) - 7) (trace alice_boundary))) \<and>
   result alice_boundary = Accepted"
proof -
  let ?p = "take (length (trace alice_boundary) - 7) (trace alice_boundary)"
  have pre: "prefix ?p (trace alice_boundary)"
    by (rule take_is_prefix)
  have g: "green (run power_on (concat (map trace [unknown_card, bob_two_keys]) @ ?p))"
    by code_simp
  show ?thesis
    using indicators_exclusive [OF pre, of "[unknown_card, bob_two_keys]"] pre g
    by (simp add: Let_def)
qed

theorem terminal_outcome_returns_to_idle_witness:
  "result bob_abcd = Accepted \<and> live_session bob_abcd = None \<and>
   \<not> red (run power_on (concat (map trace [unknown_card, bob_two_keys]) @ trace bob_abcd)) \<and>
   \<not> green (run power_on (concat (map trace [unknown_card, bob_two_keys]) @ trace bob_abcd)) \<and>
   buzzer (run power_on (concat (map trace [unknown_card, bob_two_keys]) @ trace bob_abcd)) = None \<and>
   display (run power_on (concat (map trace [unknown_card, bob_two_keys]) @ trace bob_abcd)) = []"
proof -
  have r: "result bob_abcd = Accepted"
    by code_simp
  then have t: "result bob_abcd = Accepted \<or> result bob_abcd = RejectedCard \<or>
           result bob_abcd = RejectedPin \<or> result bob_abcd = TimedOut"
    by simp
  show ?thesis
    using terminal_outcome_returns_to_idle [OF t, of "[unknown_card, bob_two_keys]"] r
    by (simp add: Let_def)
qed

end
